theory Spec2Isabelle
  imports Main "HOL-Library.Sublist" "HOL-Library.Code_Target_Nat"
begin

section \<open>Strings of the source language\<close>

text \<open>
  A Python \<open>str\<close> is a sequence of Unicode code points, and the program tests
  code points beyond ASCII (full-width brackets and colon, CJK keywords), so a
  string is a list of code points. ASCII literals are written through \<open>asc\<close>.
\<close>

type_synonym ustr = "nat list"

definition asc :: "string \<Rightarrow> ustr" where
  "asc cs = map of_char cs"

text \<open>The code points the source names: U+FF1A, U+FF08, U+FF09, and ASCII.\<close>

definition FW_COLON :: nat where "FW_COLON = 0xFF1A"
definition FW_OPEN :: nat where "FW_OPEN = 0xFF08"
definition FW_CLOSE :: nat where "FW_CLOSE = 0xFF09"
definition HW_COLON :: nat where "HW_COLON = 58"
definition HW_OPEN :: nat where "HW_OPEN = 40"
definition HW_CLOSE :: nat where "HW_CLOSE = 41"
definition NL :: nat where "NL = 10"
definition BACKSLASH :: nat where "BACKSLASH = 92"
definition LBRACE :: nat where "LBRACE = 123"
definition RBRACE :: nat where "RBRACE = 125"

text \<open>\<open>str.isspace\<close> on one code point (the whitespace table of CPython); it is
  also what \<open>\s\<close> matches in a \<open>str\<close> pattern.\<close>

definition isspace :: "nat \<Rightarrow> bool" where
  "isspace c \<longleftrightarrow>
     (9 \<le> c \<and> c \<le> 13) \<or> (28 \<le> c \<and> c \<le> 32) \<or> c = 0x85 \<or> c = 0xA0 \<or>
     c = 0x1680 \<or> (0x2000 \<le> c \<and> c \<le> 0x200A) \<or> c = 0x2028 \<or> c = 0x2029 \<or>
     c = 0x202F \<or> c = 0x205F \<or> c = 0x3000"

definition lstrip :: "ustr \<Rightarrow> ustr" where
  "lstrip s = dropWhile isspace s"

definition rstrip :: "ustr \<Rightarrow> ustr" where
  "rstrip s = rev (dropWhile isspace (rev s))"

definition strip :: "ustr \<Rightarrow> ustr" where
  "strip s = rstrip (lstrip s)"

text \<open>\<open>s.rstrip("\n")\<close>: every trailing line feed is removed.\<close>

definition rstrip_nl :: "ustr \<Rightarrow> ustr" where
  "rstrip_nl s = rev (dropWhile (\<lambda>c. c = NL) (rev s))"

definition startswith :: "ustr \<Rightarrow> ustr \<Rightarrow> bool" where
  "startswith s p \<longleftrightarrow> prefix p s"

definition endswith :: "ustr \<Rightarrow> ustr \<Rightarrow> bool" where
  "endswith s p \<longleftrightarrow> suffix p s"

text \<open>\<open>sub in s\<close>: \<open>sub\<close> occurs in \<open>s\<close> as a contiguous run.\<close>

fun contains :: "ustr \<Rightarrow> ustr \<Rightarrow> bool" where
  "contains [] sub = (sub = [])"
| "contains (c # cs) sub = (prefix sub (c # cs) \<or> contains cs sub)"

text \<open>\<open>s.split(sep, 1)\<close> for a one-character separator that occurs in \<open>s\<close>:
  the text before the first separator and the text after it.\<close>

definition split_once :: "nat \<Rightarrow> ustr \<Rightarrow> ustr \<times> ustr" where
  "split_once sep s =
     (takeWhile (\<lambda>c. c \<noteq> sep) s, drop 1 (dropWhile (\<lambda>c. c \<noteq> sep) s))"

text \<open>\<open>s.rfind(c)\<close> for a character that occurs in \<open>s\<close> (the source calls it
  under that guard): the index of its last occurrence.\<close>

definition rfind :: "nat \<Rightarrow> ustr \<Rightarrow> nat" where
  "rfind c s = length s - Suc (length (takeWhile (\<lambda>x. x \<noteq> c) (rev s)))"

text \<open>\<open>"\n".join(xs)\<close>.\<close>

fun join_nl :: "ustr list \<Rightarrow> ustr" where
  "join_nl [] = []"
| "join_nl [x] = x"
| "join_nl (x # y # ys) = x @ NL # join_nl (y # ys)"

text \<open>\<open>str.splitlines()\<close>: lines end at a line boundary (\<open>\r\n\<close> counts as one),
  the boundaries are dropped, and a final boundary opens no further line.\<close>

definition is_linebreak :: "nat \<Rightarrow> bool" where
  "is_linebreak c \<longleftrightarrow>
     (10 \<le> c \<and> c \<le> 13) \<or> (28 \<le> c \<and> c \<le> 30) \<or> c = 0x85 \<or> c = 0x2028 \<or> c = 0x2029"

fun splitlines_from :: "ustr \<Rightarrow> ustr \<Rightarrow> ustr list" where
  "splitlines_from cur [] = (if cur = [] then [] else [cur])"
| "splitlines_from cur (c # cs) =
     (if is_linebreak c then
        cur # (case cs of
                 [] \<Rightarrow> []
               | d # ds \<Rightarrow> if c = 13 \<and> d = 10 then splitlines_from [] ds
                           else splitlines_from [] (d # ds))
      else splitlines_from (cur @ [c]) cs)"

definition splitlines :: "ustr \<Rightarrow> ustr list" where
  "splitlines s = splitlines_from [] s"

section \<open>The annotation stripper\<close>

text \<open>
  \<open>RUBY_RE = \\ruby\{([^}]*)\}\{[^}]*\}\<close>. A character class \<open>[^}]*\<close> followed by
  \<open>\}\<close> can only stop at the first closing brace, so a match at a position is
  determined: \<open>until_rbrace\<close> cuts a string at its first \<open>}\<close>.
\<close>

fun until_rbrace :: "ustr \<Rightarrow> (ustr \<times> ustr) option" where
  "until_rbrace [] = None"
| "until_rbrace (c # cs) =
     (if c = RBRACE then Some ([], cs)
      else case until_rbrace cs of
             None \<Rightarrow> None
           | Some (b, r) \<Rightarrow> Some (c # b, r))"

text \<open>A match of \<open>RUBY_RE\<close> at the head of \<open>s\<close>: group 1 and the text after the match.\<close>

definition RUBY_RE_match :: "ustr \<Rightarrow> (ustr \<times> ustr) option" where
  "RUBY_RE_match s =
     (if startswith s (BACKSLASH # asc ''ruby{'') then
        (case until_rbrace (drop 6 s) of
           None \<Rightarrow> None
         | Some (base, r1) \<Rightarrow>
             (case r1 of
                [] \<Rightarrow> None
              | c # r2 \<Rightarrow>
                  if c = LBRACE then
                    (case until_rbrace r2 of
                       None \<Rightarrow> None
                     | Some (reading, r3) \<Rightarrow> Some (base, r3))
                  else None))
      else None)"

lemma until_rbrace_shorter:
  "until_rbrace s = Some (b, r) \<Longrightarrow> length r < length s"
  by (induction s arbitrary: b r) (auto split: if_splits option.splits)

lemma RUBY_RE_match_shorter:
  "RUBY_RE_match s = Some (b, r) \<Longrightarrow> length r < length s"
  unfolding RUBY_RE_match_def
  by (auto split: if_splits option.splits list.splits
           dest!: until_rbrace_shorter)

text \<open>\<open>RUBY_RE.sub(r"\1", s)\<close>: scan from the left; a match is replaced by its
  group 1 and the scan goes on after it, any other character is copied.\<close>

function plain_text :: "ustr \<Rightarrow> ustr" where
  "plain_text [] = []"
| "plain_text (c # cs) =
     (case RUBY_RE_match (c # cs) of
        Some (base, r) \<Rightarrow> base @ plain_text r
      | None \<Rightarrow> c # plain_text cs)"
  by pat_completeness auto
termination
  by (relation "measure length") (auto dest: RUBY_RE_match_shorter)

section \<open>Noise lines\<close>

text \<open>
  \<open>SKIP_RE.search(plain)\<close>. The pattern starts with \<open>^\<close> and has no MULTILINE
  flag, so it can only match at the head of the string. Each alternative but
  the first is \<open>\s*\<close> before a literal whose first character is no whitespace,
  so the literal has to sit right after the leading whitespace. \<open>$\<close> holds at
  the end of the string and before a line feed that ends it.
\<close>

definition SKIP_RE_search :: "ustr \<Rightarrow> bool" where
  "SKIP_RE_search p \<longleftrightarrow>
     (let q = dropWhile isspace p in
        startswith p ([0x5468, 0x661F, 0x99B3] @ asc ''-'') \<or>
        startswith q ([0x7531] @ asc '' Admin'') \<or>
        startswith q (asc ''Admin '' @ [0x5728]) \<or>
        (q = asc ''Admin'' \<or> q = asc ''Admin'' @ [NL]) \<or>
        startswith q [0x6587, 0x7AE0, 0x6578] \<or>
        startswith q [0x6CE8, 0x518A, 0x65E5, 0x671F] \<or>
        startswith q (asc ''LIKEDISLIKE'') \<or>
        startswith q [0x56DE, 0x5FA9, FW_COLON])"

text \<open>The test of line 68 on the plain-text projection of a stripped line.\<close>

definition is_noise :: "ustr \<Rightarrow> bool" where
  "is_noise plain \<longleftrightarrow> SKIP_RE_search plain \<or> contains plain [0x4F5C, 0x4E86, 0x7B2C]"

definition STAGE_NAMES :: "ustr set" where
  "STAGE_NAMES = {[0x5916, 0x666F], [0x5167, 0x666F], [0x5834, 0x666F]}"

section \<open>The line merger\<close>

record merge_state =
  merged :: "ustr list"
  paren_buf :: "ustr option"

definition opens_paren :: "ustr \<Rightarrow> bool" where
  "opens_paren s \<longleftrightarrow> startswith s [FW_OPEN] \<or> startswith s [HW_OPEN]"

definition closes_paren :: "ustr \<Rightarrow> bool" where
  "closes_paren s \<longleftrightarrow> endswith s [FW_CLOSE] \<or> endswith s [HW_CLOSE]"

text \<open>The body of the loop of \<open>merge_parenthetical_lines\<close>, for one line.\<close>

definition merge_step :: "merge_state \<Rightarrow> ustr \<Rightarrow> merge_state" where
  "merge_step st line =
     (let raw = rstrip_nl line; stripped = strip raw in
      case paren_buf st of
        Some buf \<Rightarrow>
          (let buf' = buf @ stripped in
           if closes_paren buf'
           then \<lparr>merged = merged st @ [buf'], paren_buf = None\<rparr>
           else \<lparr>merged = merged st, paren_buf = Some buf'\<rparr>)
      | None \<Rightarrow>
          if opens_paren stripped \<and> \<not> closes_paren stripped
          then \<lparr>merged = merged st, paren_buf = Some stripped\<rparr>
          else \<lparr>merged = merged st @ [raw], paren_buf = None\<rparr>)"

definition merge_init :: merge_state where
  "merge_init = \<lparr>merged = [], paren_buf = None\<rparr>"

definition merge_loop :: "ustr list \<Rightarrow> merge_state" where
  "merge_loop ls = foldl merge_step merge_init ls"

text \<open>After the loop, a buffer that is still active is appended (lines 47-48).\<close>

definition merge_flush :: "merge_state \<Rightarrow> ustr list" where
  "merge_flush st =
     (case paren_buf st of Some buf \<Rightarrow> merged st @ [buf] | None \<Rightarrow> merged st)"

definition merge_parenthetical_lines :: "ustr list \<Rightarrow> ustr list" where
  "merge_parenthetical_lines ls = merge_flush (merge_loop ls)"

section \<open>The classifier\<close>

text \<open>
  A block is a dict with a \<open>type\<close> of \<open>stage\<close> or \<open>dialogue\<close>. \<open>last_dialogue\<close>
  is a second reference to a dict that is already in \<open>blocks\<close>, and the
  continuation branch appends to its \<open>lines\<close> through that reference: here it
  is the index of that block in \<open>blocks\<close>.
\<close>

datatype block =
  Stage (block_text: ustr)
| Dialogue (block_char: ustr) (block_stage: "ustr option") (block_lines: "ustr list")

record fstate =
  blocks :: "block list"
  last_dialogue :: "nat option"
  prev_blank :: bool

definition format_init :: fstate where
  "format_init = \<lparr>blocks = [], last_dialogue = None, prev_blank = True\<rparr>"

text \<open>Lines 84-92: a parenthetical note at the end of the name part, in either
  bracket style; the result is the name and the note.\<close>

definition split_note :: "ustr \<Rightarrow> ustr \<times> ustr option" where
  "split_note name_raw =
     (if FW_OPEN \<in> set name_raw \<and> endswith name_raw [FW_CLOSE] then
        (let idx = rfind FW_OPEN name_raw in
         (strip (take idx name_raw), Some (strip (butlast (drop (idx + 1) name_raw)))))
      else if HW_OPEN \<in> set name_raw \<and> endswith name_raw [HW_CLOSE] then
        (let idx = rfind HW_OPEN name_raw in
         (strip (take idx name_raw), Some (strip (butlast (drop (idx + 1) name_raw)))))
      else (name_raw, None))"

text \<open>Lines 71-103: a stripped line \<open>s\<close> that contains the full-width colon.\<close>

definition speaker_line :: "fstate \<Rightarrow> ustr \<Rightarrow> fstate" where
  "speaker_line st s =
     (let (n, t) = split_once FW_COLON s;
          name_raw = strip n;
          text_raw = strip t;
          name_plain = plain_text name_raw in
      if name_plain \<in> STAGE_NAMES then
        \<lparr>blocks = blocks st @ [Stage (strip (name_raw @ [FW_COLON] @ text_raw))],
         last_dialogue = None, prev_blank = False\<rparr>
      else
        (let (name', stage_raw) = split_note name_raw in
         \<lparr>blocks = blocks st @ [Dialogue name' stage_raw [text_raw]],
          last_dialogue = Some (length (blocks st)), prev_blank = False\<rparr>))"

text \<open>Lines 106-121: a line that starts with an opening bracket or ends with a
  closing one.\<close>

definition paren_content :: "ustr \<Rightarrow> ustr" where
  "paren_content s =
     (if opens_paren s \<and> closes_paren s then strip (butlast (drop 1 s))
      else if opens_paren s then strip (drop 1 s)
      else if closes_paren s then strip (butlast s)
      else s)"

definition paren_line :: "fstate \<Rightarrow> ustr \<Rightarrow> fstate" where
  "paren_line st s =
     \<lparr>blocks = blocks st @ [Stage (paren_content s)],
      last_dialogue = None, prev_blank = False\<rparr>"

text \<open>\<open>last_dialogue["lines"].append(s)\<close> through the reference.\<close>

definition append_line :: "nat \<Rightarrow> ustr \<Rightarrow> block list \<Rightarrow> block list" where
  "append_line i s bs =
     (if i < length bs then
        (case bs ! i of
           Dialogue c n ls \<Rightarrow> bs[i := Dialogue c n (ls @ [s])]
         | Stage t \<Rightarrow> bs)
      else bs)"

text \<open>Lines 123-128: continuation of the open dialogue, or a new stage block.\<close>

definition fallback_line :: "fstate \<Rightarrow> ustr \<Rightarrow> fstate" where
  "fallback_line st s =
     (case last_dialogue st of
        Some i \<Rightarrow>
          if \<not> prev_blank st
          then \<lparr>blocks = append_line i s (blocks st), last_dialogue = Some i, prev_blank = False\<rparr>
          else \<lparr>blocks = blocks st @ [Stage s], last_dialogue = None, prev_blank = False\<rparr>
      | None \<Rightarrow> \<lparr>blocks = blocks st @ [Stage s], last_dialogue = None, prev_blank = False\<rparr>)"

text \<open>The body of the loop over the merged lines (lines 61-128).\<close>

definition classify_step :: "fstate \<Rightarrow> ustr \<Rightarrow> fstate" where
  "classify_step st raw =
     (if strip raw = [] then st\<lparr>prev_blank := True\<rparr>
      else
        (let s = strip raw; plain = plain_text s in
         if is_noise plain then st
         else if FW_COLON \<in> set s then speaker_line st s
         else if opens_paren s \<or> closes_paren s then paren_line st s
         else fallback_line st s))"

definition classify :: "ustr list \<Rightarrow> fstate" where
  "classify ls = foldl classify_step format_init ls"

section \<open>The serializer\<close>

definition stage_cmd :: "ustr \<Rightarrow> ustr" where
  "stage_cmd t = BACKSLASH # asc ''stage{'' @ t @ asc ''}''"

definition charname_cmd :: "ustr \<Rightarrow> ustr" where
  "charname_cmd t = BACKSLASH # asc ''charname{'' @ t @ asc ''}''"

definition BEGIN_DIALOGUE :: ustr where
  "BEGIN_DIALOGUE = BACKSLASH # asc ''begin{dialogue}''"

definition END_DIALOGUE :: ustr where
  "END_DIALOGUE = BACKSLASH # asc ''end{dialogue}''"

text \<open>The body of the loop over the blocks (lines 131-143), on \<open>out_lines\<close>.
  \<open>if stage\<close> holds for a string that is present and not empty.\<close>

fun emit_block :: "ustr list \<Rightarrow> block \<Rightarrow> ustr list" where
  "emit_block out_lines (Stage t) = out_lines @ [stage_cmd t] @ [[]]"
| "emit_block out_lines (Dialogue c n ls) =
     (let o1 = out_lines @ [charname_cmd c];
          o2 = (case n of
                  Some note \<Rightarrow> if note \<noteq> [] then o1 @ [stage_cmd note] else o1
                | None \<Rightarrow> o1);
          o3 = o2 @ [BEGIN_DIALOGUE];
          o4 = o3 @ ls;
          o5 = o4 @ [END_DIALOGUE]
      in o5 @ [[]])"

definition serialize :: "block list \<Rightarrow> ustr" where
  "serialize bs = rstrip (join_nl (foldl emit_block [] bs)) @ [NL]"

definition format_script :: "ustr \<Rightarrow> ustr" where
  "format_script text =
     serialize (blocks (classify (merge_parenthetical_lines (splitlines text))))"

section \<open>Notions used by the properties\<close>

text \<open>The token \<open>\ruby\<close>, and a string in which \<open>RUBY_RE\<close> matches somewhere.\<close>

definition RUBY_TOKEN :: ustr where
  "RUBY_TOKEN = BACKSLASH # asc ''ruby''"

fun has_span :: "ustr \<Rightarrow> bool" where
  "has_span [] = False"
| "has_span (c # cs) = (RUBY_RE_match (c # cs) \<noteq> None \<or> has_span cs)"

text \<open>Every \<open>\ruby\<close> token of the string opens a well-formed span.\<close>

fun spans_balanced :: "ustr \<Rightarrow> bool" where
  "spans_balanced [] = True"
| "spans_balanced (c # cs) =
     ((startswith (c # cs) RUBY_TOKEN \<longrightarrow> RUBY_RE_match (c # cs) \<noteq> None) \<and>
      spans_balanced cs)"

text \<open>The braces of the string are balanced, as brackets.\<close>

fun brace_depth :: "nat \<Rightarrow> ustr \<Rightarrow> nat option" where
  "brace_depth d [] = Some d"
| "brace_depth d (c # cs) =
     (if c = LBRACE then brace_depth (Suc d) cs
      else if c = RBRACE then (case d of 0 \<Rightarrow> None | Suc d' \<Rightarrow> brace_depth d' cs)
      else brace_depth d cs)"

definition braces_balanced :: "ustr \<Rightarrow> bool" where
  "braces_balanced s \<longleftrightarrow> brace_depth 0 s = Some 0"

text \<open>The base texts of the spans that the scan of \<open>plain_text\<close> replaces, in order.\<close>

function span_bases :: "ustr \<Rightarrow> ustr list" where
  "span_bases [] = []"
| "span_bases (c # cs) =
     (case RUBY_RE_match (c # cs) of
        Some (base, r) \<Rightarrow> base # span_bases r
      | None \<Rightarrow> span_bases cs)"
  by pat_completeness auto
termination
  by (relation "measure length") (auto dest: RUBY_RE_match_shorter)

text \<open>No base text holds a backslash.\<close>

definition bases_plain :: "ustr \<Rightarrow> bool" where
  "bases_plain s \<longleftrightarrow> list_all (\<lambda>b. BACKSLASH \<notin> set b) (span_bases s)"

text \<open>A span opens at the head of \<open>cs\<close>, or right after a leading \<open>r\<close>, \<open>ru\<close> or
  \<open>rub\<close>; and a string in which no backslash is followed by such a string, so
  that no span opens right after \<open>\\<close>, \<open>\r\<close>, \<open>\ru\<close> or \<open>\rub\<close>.\<close>

definition span_after_prefix :: "ustr \<Rightarrow> bool" where
  "span_after_prefix cs \<longleftrightarrow>
     list_ex (\<lambda>p. startswith cs p \<and> RUBY_RE_match (drop (length p) cs) \<noteq> None)
       [[], asc ''r'', asc ''ru'', asc ''rub'']"

fun no_split_token :: "ustr \<Rightarrow> bool" where
  "no_split_token [] = True"
| "no_split_token (c # cs) =
     ((c = BACKSLASH \<longrightarrow> \<not> span_after_prefix cs) \<and> no_split_token cs)"

text \<open>Sample lines for the stripper: a base text that ends the token, a token
  split around a span, and a command next to a span.\<close>

definition split_token_input :: ustr where
  "split_token_input = BACKSLASH # asc ''ru'' @ BACKSLASH # asc ''ruby{by}{x}''"

definition MIXED_LINE :: ustr where
  "MIXED_LINE = BACKSLASH # asc ''textbf{x}'' @ BACKSLASH # asc ''ruby{a}{b}y''"

definition rebuilt_span_input :: ustr where
  "rebuilt_span_input = BACKSLASH # asc ''ruby{'' @ BACKSLASH # asc ''}{x}ruby{a}{b}''"

text \<open>The test that activates the buffer of the merger (lines 40-42).\<close>

definition activates :: "ustr \<Rightarrow> bool" where
  "activates line \<longleftrightarrow>
     (let stripped = strip (rstrip_nl line) in opens_paren stripped \<and> \<not> closes_paren stripped)"

text \<open>The lines a merger state stands for: those emitted, and one for an open buffer.\<close>

definition pending :: "merge_state \<Rightarrow> nat" where
  "pending st = length (merged st) + (case paren_buf st of None \<Rightarrow> 0 | Some b \<Rightarrow> 1)"

text \<open>A string with no whitespace at either end.\<close>

definition trimmed :: "ustr \<Rightarrow> bool" where
  "trimmed s \<longleftrightarrow> s = [] \<or> (\<not> isspace (hd s) \<and> \<not> isspace (last s))"

text \<open>A block after a step, against the same block before it: a stage block is
  unchanged, a dialogue block keeps its name and note and its lines are extended.\<close>

fun grows :: "block \<Rightarrow> block \<Rightarrow> bool" where
  "grows (Stage t) b' = (b' = Stage t)"
| "grows (Dialogue c n ls) b' =
     (case b' of Dialogue c' n' ls' \<Rightarrow> c' = c \<and> n' = n \<and> prefix ls ls' | Stage t \<Rightarrow> False)"

text \<open>The invariant of a dialogue block.\<close>

fun lines_nonempty :: "block \<Rightarrow> bool" where
  "lines_nonempty (Stage t) = True"
| "lines_nonempty (Dialogue c n ls) = (ls \<noteq> [])"

text \<open>A block as line \<open>l\<close> creates it: a stage block, or a dialogue block whose
  lines are just the text after the first full-width colon of \<open>l\<close>.\<close>

fun fresh_for :: "ustr \<Rightarrow> block \<Rightarrow> bool" where
  "fresh_for l (Stage t) = True"
| "fresh_for l (Dialogue c n ls) = (ls = [strip (snd (split_once FW_COLON (strip l)))])"

text \<open>A line the classifier passes over: blank (line 62) or noise (line 68).\<close>

definition is_blank_or_noise :: "ustr \<Rightarrow> bool" where
  "is_blank_or_noise l \<longleftrightarrow> strip l = [] \<or> is_noise (plain_text (strip l))"

text \<open>\<open>last_dialogue\<close>, when set, refers to the last block, a dialogue block.\<close>

definition dialogue_ref_ok :: "fstate \<Rightarrow> bool" where
  "dialogue_ref_ok st \<longleftrightarrow>
     (case last_dialogue st of
        None \<Rightarrow> True
      | Some i \<Rightarrow> Suc i = length (blocks st) \<and> (\<exists>c n ls. blocks st ! i = Dialogue c n ls))"

text \<open>The lines a block is rendered to, written out from Section 4.4 of the
  specification; the note line is there for a note that is a non-empty string.\<close>

fun block_template :: "block \<Rightarrow> ustr list" where
  "block_template (Stage t) = [BACKSLASH # asc ''stage{'' @ t @ asc ''}'', []]"
| "block_template (Dialogue c n ls) =
     [BACKSLASH # asc ''charname{'' @ c @ asc ''}''] @
     (case n of
        Some note \<Rightarrow> if note \<noteq> [] then [BACKSLASH # asc ''stage{'' @ note @ asc ''}''] else []
      | None \<Rightarrow> []) @
     [BACKSLASH # asc ''begin{dialogue}''] @ ls @ [BACKSLASH # asc ''end{dialogue}'', []]"

text \<open>Sample lines: a dialogue header, a scene heading, a reply marker, and a
  header with an empty note.\<close>

definition HEADER :: ustr where
  "HEADER = [0x5F35, 0x4E09, FW_COLON, 0x4F60, 0x597D]"

definition SCENE :: ustr where
  "SCENE = [0x5916, 0x666F, FW_COLON, 0x6D77, 0x908A]"

definition REPLY_NOISE :: ustr where
  "REPLY_NOISE = [0x56DE, 0x5FA9, FW_COLON] @ asc ''x''"

definition EMPTY_NOTE :: ustr where
  "EMPTY_NOTE = [0x674E, 0x56DB, FW_OPEN, FW_CLOSE, FW_COLON] @ asc ''text''"

text \<open>A sample document: a header with a note, a continuation line, a blank
  line, and a parenthetical over two lines.\<close>

definition DIALOGUE_DOC :: ustr where
  "DIALOGUE_DOC =
     [0x674E, 0x56DB, 40, 0x7B11, 41, 0xFF1A, 0x4F60, 0x4F86, 0x4E86, 10] @ asc ''more'' @
     [10, 10, 0xFF08, 0x4ED6, 0x8F49, 0x8EAB, 10, 0x96E2, 0x958B, 0xFF09]"


section \<open>The annotation stripper: properties\<close>

lemma RUBY_RE_match_Nil [simp]: "RUBY_RE_match [] = None"
  by (simp add: RUBY_RE_match_def startswith_def)

text \<open>
  C8. A string in which \<open>RUBY_RE\<close> matches nowhere is its own plain-text
  projection.
\<close>

theorem plain_text_plain_unchanged: "\<not> has_span s \<Longrightarrow> plain_text s = s"
  by (induction s) (auto split: option.splits)

theorem plain_text_plain_unchanged_witness:
  "\<not> has_span (asc ''abc{d}'') \<and> plain_text (asc ''abc{d}'') = asc ''abc{d}''"
proof -
  have h: "\<not> has_span (asc ''abc{d}'')" by code_simp
  show ?thesis using h plain_text_plain_unchanged [OF h] by simp
qed

text \<open>
  C7, as stated, fails: in \<open>\ruby{\}{x}ruby{a}{b}\<close> the only \<open>\ruby\<close> token opens a
  well-formed span and the braces are balanced, yet the projection is
  \<open>\ruby{a}{b}\<close>, a whole span.
\<close>

theorem plain_text_leaves_span:
  "spans_balanced rebuilt_span_input \<and> braces_balanced rebuilt_span_input \<and>
   plain_text rebuilt_span_input = BACKSLASH # asc ''ruby{a}{b}'' \<and>
   contains (plain_text rebuilt_span_input) RUBY_TOKEN \<and>
   has_span (plain_text rebuilt_span_input)"
  by code_simp

text \<open>Nested spans behave alike: \<open>\ruby{\ruby{a}{b}}{c}\<close> projects to \<open>\ruby{a}{c}\<close>.
  A token can also be put together around a span whose base text holds no
  backslash: \<open>\ru\ruby{by}{x}\<close> projects to \<open>\ruby\<close>.\<close>

lemma plain_text_nested_span:
  "plain_text (BACKSLASH # asc ''ruby{'' @ BACKSLASH # asc ''ruby{a}{b}}{c}'') =
     BACKSLASH # asc ''ruby{a}{c}''"
  by code_simp

lemma plain_text_split_token:
  "spans_balanced split_token_input \<and> bases_plain split_token_input \<and>
   plain_text split_token_input = BACKSLASH # asc ''ruby''"
  by code_simp

lemma asc_ruby: "asc ''ruby'' = [114, 117, 98, 121]" "asc ''r'' = [114]"
  "asc ''ru'' = [114, 117]" "asc ''rub'' = [114, 117, 98]"
  by (simp_all add: asc_def)

lemma until_rbrace_suffix: "until_rbrace s = Some (b, r) \<Longrightarrow> suffix r s"
  by (induction s arbitrary: b r) (auto split: if_splits option.splits intro: suffix_ConsI)

lemma RUBY_RE_match_suffix:
  assumes "RUBY_RE_match s = Some (b, r)"
  shows "suffix r s"
proof -
  from assms obtain base r1 c r2 reading where
    u1: "until_rbrace (drop 6 s) = Some (base, r1)" and r1: "r1 = c # r2" and
    u2: "until_rbrace r2 = Some (reading, r)"
    unfolding RUBY_RE_match_def
    by (auto split: if_splits option.splits list.splits)
  have "suffix r r2" using until_rbrace_suffix [OF u2] .
  also have "suffix r2 r1" by (simp add: r1 suffix_ConsI)
  also have "suffix r1 (drop 6 s)" using until_rbrace_suffix [OF u1] .
  also have "suffix (drop 6 s) s" by (rule suffix_drop)
  finally show ?thesis .
qed

lemma spans_balanced_suffix: "suffix r s \<Longrightarrow> spans_balanced s \<Longrightarrow> spans_balanced r"
  by (induction s) (auto simp: suffix_Cons)

lemma no_split_token_suffix: "suffix r s \<Longrightarrow> no_split_token s \<Longrightarrow> no_split_token r"
  by (induction s) (auto simp: suffix_Cons)

lemma prefix_plain_text_step:
  assumes "prefix (x # p) (plain_text t)" "RUBY_RE_match t = None"
  shows "\<exists>t'. t = x # t' \<and> prefix p (plain_text t')"
  using assms by (cases t) auto

lemma span_after_prefixI:
  assumes "startswith cs p" "p \<in> set [[], asc ''r'', asc ''ru'', asc ''rub'']"
    "RUBY_RE_match (drop (length p) cs) \<noteq> None"
  shows "span_after_prefix cs"
  unfolding span_after_prefix_def list_ex_iff using assms by blast

lemma no_span_after_prefix:
  assumes "\<not> span_after_prefix cs" "cs = p @ t" "p \<in> set [[], asc ''r'', asc ''ru'', asc ''rub'']"
  shows "RUBY_RE_match t = None"
proof (rule ccontr)
  assume "RUBY_RE_match t \<noteq> None"
  then have "RUBY_RE_match (drop (length p) cs) \<noteq> None" by (simp add: assms(2))
  moreover have "startswith cs p" by (simp add: startswith_def assms(2))
  ultimately have "span_after_prefix cs" using assms(3) by (rule span_after_prefixI [rotated 2])
  with assms(1) show False ..
qed

lemma token_rebuilt:
  assumes p: "prefix (asc ''ruby'') (plain_text cs)" and n: "\<not> span_after_prefix cs"
  shows "prefix (asc ''ruby'') cs"
proof -
  have m0: "RUBY_RE_match cs = None"
    by (rule no_span_after_prefix [OF n, of "[]"]) simp_all
  from prefix_plain_text_step [OF p [unfolded asc_ruby] m0] obtain t1 where
    t1: "cs = 114 # t1" "prefix [117, 98, 121] (plain_text t1)" by blast
  have m1: "RUBY_RE_match t1 = None"
    by (rule no_span_after_prefix [OF n, of "asc ''r''"]) (simp_all add: t1 asc_ruby)
  from prefix_plain_text_step [OF t1(2) m1] obtain t2 where
    t2: "t1 = 117 # t2" "prefix [98, 121] (plain_text t2)" by blast
  have m2: "RUBY_RE_match t2 = None"
    by (rule no_span_after_prefix [OF n, of "asc ''ru''"]) (simp_all add: t1 t2 asc_ruby)
  from prefix_plain_text_step [OF t2(2) m2] obtain t3 where
    t3: "t2 = 98 # t3" "prefix [121] (plain_text t3)" by blast
  have m3: "RUBY_RE_match t3 = None"
    by (rule no_span_after_prefix [OF n, of "asc ''rub''"]) (simp_all add: t1 t2 t3 asc_ruby)
  from prefix_plain_text_step [OF t3(2) m3] obtain t4 where
    t4: "t3 = 121 # t4" by blast
  show ?thesis by (simp add: t1 t2 t3 t4 asc_ruby)
qed

lemma contains_skip_base:
  "BACKSLASH \<notin> set b \<Longrightarrow> contains (b @ x) (BACKSLASH # p) = contains x (BACKSLASH # p)"
  by (induction b) auto

lemma has_span_token: "has_span t \<Longrightarrow> contains t RUBY_TOKEN"
proof (induction t)
  case Nil
  then show ?case by simp
next
  case (Cons c cs)
  show ?case
  proof (cases "RUBY_RE_match (c # cs) = None")
    case True
    with Cons show ?thesis by simp
  next
    case False
    then have "startswith (c # cs) (BACKSLASH # asc ''ruby{'')"
      by (auto simp: RUBY_RE_match_def split: if_splits)
    then have "prefix RUBY_TOKEN (c # cs)"
      by (auto simp: startswith_def RUBY_TOKEN_def prefix_def asc_def)
    then show ?thesis by simp
  qed
qed

lemma plain_text_token_free:
  "spans_balanced s \<Longrightarrow> bases_plain s \<Longrightarrow> no_split_token s \<Longrightarrow>
     \<not> contains (plain_text s) RUBY_TOKEN"
proof (induction s rule: plain_text.induct)
  case 1
  show ?case by (simp add: RUBY_TOKEN_def)
next
  case (2 c cs)
  show ?case
  proof (cases "RUBY_RE_match (c # cs)")
    case None
    from "2.prems" None have b: "spans_balanced cs" "bases_plain cs" "no_split_token cs"
      by (simp_all add: bases_plain_def)
    have ih: "\<not> contains (plain_text cs) RUBY_TOKEN" using "2.IH"(1) [OF None b] .
    have "\<not> prefix RUBY_TOKEN (c # plain_text cs)"
    proof
      assume a: "prefix RUBY_TOKEN (c # plain_text cs)"
      then have c: "c = BACKSLASH" and p: "prefix (asc ''ruby'') (plain_text cs)"
        by (simp_all add: RUBY_TOKEN_def)
      from "2.prems"(3) c have "\<not> span_after_prefix cs" by simp
      from token_rebuilt [OF p this] c have "startswith (c # cs) RUBY_TOKEN"
        by (simp add: startswith_def RUBY_TOKEN_def)
      with "2.prems"(1) None show False by simp
    qed
    with ih None show ?thesis by simp
  next
    case (Some m)
    obtain base r where m: "m = (base, r)" by (cases m)
    from Some m have sm: "RUBY_RE_match (c # cs) = Some (base, r)" by simp
    have suf: "suffix r (c # cs)" using RUBY_RE_match_suffix [OF sm] .
    from "2.prems"(2) sm have nb: "BACKSLASH \<notin> set base" and bp: "bases_plain r"
      by (simp_all add: bases_plain_def)
    have "\<not> contains (plain_text r) RUBY_TOKEN"
      using "2.IH"(2) [OF Some m [symmetric] spans_balanced_suffix [OF suf "2.prems"(1)] bp
          no_split_token_suffix [OF suf "2.prems"(3)]] .
    then show ?thesis
      using sm nb by (simp add: RUBY_TOKEN_def contains_skip_base)
  qed
qed

text \<open>
  C7, amended. When every \<open>\ruby\<close> token of the line opens a well-formed span,
  no base text holds a backslash, and no span opens right after \<open>\\<close>, \<open>\r\<close>,
  \<open>\ru\<close> or \<open>\rub\<close>, the projection holds no \<open>\ruby\<close> token and no span. Other
  backslashes stay where they are: \<open>\textbf{x}\ruby{a}{b}y\<close> projects to
  \<open>\textbf{x}ay\<close>.
\<close>

theorem plain_text_markup_free:
  assumes "spans_balanced s" "bases_plain s" "no_split_token s"
  shows "\<not> contains (plain_text s) RUBY_TOKEN \<and> \<not> has_span (plain_text s) \<and>
         plain_text MIXED_LINE = BACKSLASH # asc ''textbf{x}ay''"
proof -
  have t: "\<not> contains (plain_text s) RUBY_TOKEN" by (rule plain_text_token_free [OF assms])
  have e: "plain_text MIXED_LINE = BACKSLASH # asc ''textbf{x}ay''" by code_simp
  from t e show ?thesis using has_span_token [of "plain_text s"] by blast
qed

theorem plain_text_markup_free_witness:
  "spans_balanced MIXED_LINE \<and> bases_plain MIXED_LINE \<and> no_split_token MIXED_LINE \<and>
   has_span MIXED_LINE \<and> \<not> contains (plain_text MIXED_LINE) RUBY_TOKEN \<and>
   \<not> has_span (plain_text MIXED_LINE)"
proof -
  have h1: "spans_balanced MIXED_LINE" by code_simp
  have h2: "bases_plain MIXED_LINE" by code_simp
  have h3: "no_split_token MIXED_LINE" by code_simp
  have h4: "has_span MIXED_LINE" by code_simp
  show ?thesis using h1 h2 h3 h4 plain_text_markup_free [OF h1 h2 h3] by blast
qed

section \<open>The line merger: properties\<close>

lemma merge_loop_snoc: "merge_loop (ls @ [l]) = merge_step (merge_loop ls) l"
  by (simp add: merge_loop_def)

lemma merge_loop_Nil: "merge_loop [] = merge_init"
  by (simp add: merge_loop_def)

lemma pending_step: "pending (merge_step st l) \<le> Suc (pending st)"
  by (simp add: pending_def merge_step_def Let_def split: option.splits)

lemma pending_loop: "pending (merge_loop ls) \<le> length ls"
proof (induction ls rule: rev_induct)
  case Nil
  show ?case by (simp add: merge_loop_Nil merge_init_def pending_def)
next
  case (snoc l ls)
  have "pending (merge_loop (ls @ [l])) \<le> Suc (pending (merge_loop ls))"
    by (simp add: merge_loop_snoc pending_step)
  with snoc show ?case by simp
qed

lemma length_merge_flush: "length (merge_flush st) = pending st"
  by (simp add: merge_flush_def pending_def split: option.splits)

lemma merge_loop_inactive:
  "\<forall>l\<in>set ls. \<not> activates l \<Longrightarrow>
     merge_loop ls = \<lparr>merged = map rstrip_nl ls, paren_buf = None\<rparr>"
proof (induction ls rule: rev_induct)
  case Nil
  show ?case by (simp add: merge_loop_Nil merge_init_def)
next
  case (snoc l ls)
  then have st: "merge_loop ls = \<lparr>merged = map rstrip_nl ls, paren_buf = None\<rparr>"
    and l: "\<not> activates l" by simp_all
  from l show ?case
    by (auto simp: merge_loop_snoc st merge_step_def activates_def Let_def)
qed

text \<open>
  C5. The merger never returns more lines than it was given; when no line
  activates the buffer it returns each line without its trailing line feeds,
  so as many lines as it was given.
\<close>

theorem merge_line_count:
  "length (merge_parenthetical_lines ls) \<le> length ls \<and>
   ((\<forall>l\<in>set ls. \<not> activates l) \<longrightarrow>
      merge_parenthetical_lines ls = map rstrip_nl ls \<and>
      length (merge_parenthetical_lines ls) = length ls)"
proof (intro conjI impI)
  show "length (merge_parenthetical_lines ls) \<le> length ls"
    by (simp add: merge_parenthetical_lines_def length_merge_flush pending_loop)
next
  assume a: "\<forall>l\<in>set ls. \<not> activates l"
  show m: "merge_parenthetical_lines ls = map rstrip_nl ls"
    by (simp add: merge_parenthetical_lines_def merge_loop_inactive [OF a] merge_flush_def)
  show "length (merge_parenthetical_lines ls) = length ls"
    by (simp add: m)
qed

theorem merge_line_count_witness:
  "length (merge_parenthetical_lines [asc ''(a'', asc ''b)'', asc ''c'']) \<le> 3 \<and>
   \<not> activates (asc ''a'') \<and> \<not> activates (asc ''(b)'') \<and>
   length (merge_parenthetical_lines [asc ''a'', asc ''(b)'']) = 2"
proof -
  have h1: "\<not> activates (asc ''a'')" by code_simp
  have h2: "\<not> activates (asc ''(b)'')" by code_simp
  have h: "\<forall>l\<in>set [asc ''a'', asc ''(b)'']. \<not> activates l" using h1 h2 by simp
  have a: "length (merge_parenthetical_lines [asc ''(a'', asc ''b)'', asc ''c'']) \<le> 3"
    using merge_line_count [of "[asc ''(a'', asc ''b)'', asc ''c'']"] by simp
  have b: "length (merge_parenthetical_lines [asc ''a'', asc ''(b)'']) = 2"
    using h merge_line_count [of "[asc ''a'', asc ''(b)'']"] by simp
  show ?thesis using h1 h2 a b by blast
qed

text \<open>
  C6. When the buffer is still open after the last line, the merger returns the
  lines emitted so far followed by the buffer; the buffer is the concatenation
  of the stripped lines read since it was opened, so none of them is lost.
\<close>

theorem merge_flushes_open_buffer:
  "paren_buf (merge_loop ls) = Some b \<Longrightarrow>
     merge_parenthetical_lines ls = merged (merge_loop ls) @ [b] \<and>
     (\<exists>pre suf. ls = pre @ suf \<and> suf \<noteq> [] \<and>
        paren_buf (merge_loop pre) = None \<and>
        merged (merge_loop pre) = merged (merge_loop ls) \<and>
        b = concat (map (\<lambda>l. strip (rstrip_nl l)) suf))"
proof (induction ls arbitrary: b rule: rev_induct)
  case Nil
  then show ?case by (simp add: merge_loop_Nil merge_init_def)
next
  case (snoc l ls)
  have flush: "merge_parenthetical_lines (ls @ [l]) = merged (merge_loop (ls @ [l])) @ [b]"
    using snoc.prems by (simp add: merge_parenthetical_lines_def merge_flush_def)
  show ?case
  proof (cases "paren_buf (merge_loop ls)")
    case None
    with snoc.prems have b: "b = strip (rstrip_nl l)"
      and m: "merged (merge_loop (ls @ [l])) = merged (merge_loop ls)"
      by (auto simp: merge_loop_snoc merge_step_def Let_def split: if_splits)
    have "ls @ [l] = ls @ [l] \<and> [l] \<noteq> [] \<and> paren_buf (merge_loop ls) = None \<and>
        merged (merge_loop ls) = merged (merge_loop (ls @ [l])) \<and>
        b = concat (map (\<lambda>l. strip (rstrip_nl l)) [l])"
      using None b m by simp
    then show ?thesis using flush by blast
  next
    case (Some buf)
    with snoc.prems have b: "b = buf @ strip (rstrip_nl l)"
      and m: "merged (merge_loop (ls @ [l])) = merged (merge_loop ls)"
      by (auto simp: merge_loop_snoc merge_step_def Let_def split: if_splits)
    from snoc.IH [OF Some] obtain pre suf where
      ps: "ls = pre @ suf" "suf \<noteq> []" "paren_buf (merge_loop pre) = None"
        "merged (merge_loop pre) = merged (merge_loop ls)"
        "buf = concat (map (\<lambda>l. strip (rstrip_nl l)) suf)"
      by blast
    have "ls @ [l] = pre @ (suf @ [l]) \<and> suf @ [l] \<noteq> [] \<and> paren_buf (merge_loop pre) = None \<and>
        merged (merge_loop pre) = merged (merge_loop (ls @ [l])) \<and>
        b = concat (map (\<lambda>l. strip (rstrip_nl l)) (suf @ [l]))"
      using ps b m by simp
    then show ?thesis using flush by blast
  qed
qed

theorem merge_flushes_open_buffer_witness:
  "paren_buf (merge_loop [asc ''x'', asc ''(ab'', asc '' cd '']) = Some (asc ''(abcd'') \<and>
   merge_parenthetical_lines [asc ''x'', asc ''(ab'', asc '' cd ''] = [asc ''x'', asc ''(abcd'']"
proof -
  have h: "paren_buf (merge_loop [asc ''x'', asc ''(ab'', asc '' cd '']) = Some (asc ''(abcd'')"
    by code_simp
  have m: "merged (merge_loop [asc ''x'', asc ''(ab'', asc '' cd '']) = [asc ''x'']"
    by code_simp
  have "merge_parenthetical_lines [asc ''x'', asc ''(ab'', asc '' cd ''] =
      merged (merge_loop [asc ''x'', asc ''(ab'', asc '' cd '']) @ [asc ''(abcd'']"
    using merge_flushes_open_buffer [OF h] by blast
  with h m show ?thesis by simp
qed

section \<open>Whitespace and splitting\<close>

lemma endswith_single: "endswith s [c] \<longleftrightarrow> s \<noteq> [] \<and> last s = c"
  by (cases s rule: rev_cases) (auto simp: endswith_def)

lemma rstrip_decomp: "rstrip s @ rev (takeWhile isspace (rev s)) = s"
proof -
  have "rev (takeWhile isspace (rev s) @ dropWhile isspace (rev s)) = s" by simp
  then show ?thesis unfolding rstrip_def rev_append .
qed

lemma rstrip_last: "rstrip s \<noteq> [] \<Longrightarrow> \<not> isspace (last (rstrip s))"
  unfolding rstrip_def using hd_dropWhile [of isspace "rev s"]
  by (simp add: last_rev)

lemma rstrip_hd: "rstrip s \<noteq> [] \<Longrightarrow> hd (rstrip s) = hd s"
  using rstrip_decomp [of s] by (metis hd_append2)

lemma lstrip_hd: "lstrip s \<noteq> [] \<Longrightarrow> \<not> isspace (hd (lstrip s))"
  unfolding lstrip_def by (rule hd_dropWhile)

lemma trimmed_strip: "trimmed (strip s)"
proof (cases "strip s = []")
  case True
  then show ?thesis by (simp add: trimmed_def)
next
  case False
  then have r: "rstrip (lstrip s) \<noteq> []" by (simp add: strip_def)
  then have l: "lstrip s \<noteq> []" by (auto simp: rstrip_def)
  have "\<not> isspace (last (rstrip (lstrip s)))" using rstrip_last [OF r] .
  moreover have "hd (rstrip (lstrip s)) = hd (lstrip s)" using rstrip_hd [OF r] .
  moreover have "\<not> isspace (hd (lstrip s))" using lstrip_hd [OF l] .
  ultimately show ?thesis by (simp add: trimmed_def strip_def)
qed

lemma rstrip_id: "s = [] \<or> \<not> isspace (last s) \<Longrightarrow> rstrip s = s"
  by (cases s rule: rev_cases) (auto simp: rstrip_def)

lemma lstrip_id: "s = [] \<or> \<not> isspace (hd s) \<Longrightarrow> lstrip s = s"
  by (cases s) (auto simp: lstrip_def)

lemma strip_trimmed: "trimmed s \<Longrightarrow> strip s = s"
  unfolding trimmed_def strip_def by (auto simp: lstrip_id rstrip_id)

lemma strip_all_space:
  assumes "\<forall>c\<in>set ws. isspace c"
  shows "strip ws = []"
proof -
  have "lstrip ws = []" using assms by (simp add: lstrip_def dropWhile_eq_Nil_conv)
  then show ?thesis by (simp add: strip_def rstrip_def)
qed

lemma not_space_FW_COLON: "\<not> isspace FW_COLON"
  by (simp add: isspace_def FW_COLON_def)

lemma trimmed_join:
  assumes "trimmed a" "a \<noteq> []" "trimmed b"
  shows "trimmed (a @ [FW_COLON] @ b)"
  using assms not_space_FW_COLON by (cases a) (auto simp: trimmed_def)

lemma split_once_decomp:
  assumes "c \<in> set s"
  shows "s = fst (split_once c s) @ [c] @ snd (split_once c s) \<and> c \<notin> set (fst (split_once c s))"
proof -
  have d: "dropWhile (\<lambda>x. x \<noteq> c) s = c # drop 1 (dropWhile (\<lambda>x. x \<noteq> c) s)"
    using assms by (induction s) auto
  have "s = takeWhile (\<lambda>x. x \<noteq> c) s @ dropWhile (\<lambda>x. x \<noteq> c) s" by simp
  with d have "s = takeWhile (\<lambda>x. x \<noteq> c) s @ [c] @ drop 1 (dropWhile (\<lambda>x. x \<noteq> c) s)"
    by (metis append_Cons append_Nil)
  moreover have "c \<notin> set (takeWhile (\<lambda>x. x \<noteq> c) s)"
    by (auto dest: set_takeWhileD)
  ultimately show ?thesis by (simp add: split_once_def)
qed

section \<open>The classifier: properties\<close>

lemma classify_snoc: "classify (ls @ [l]) = classify_step (classify ls) l"
  by (simp add: classify_def)

lemma length_append_line [simp]: "length (append_line i s bs) = length bs"
  by (simp add: append_line_def split: block.splits)

lemma grows_refl [simp]: "grows b b"
  by (cases b) auto

lemma grows_append_line: "j < length bs \<Longrightarrow> grows (bs ! j) (append_line i s bs ! j)"
  by (cases "j = i") (auto simp: append_line_def split: block.splits)

lemma lines_nonempty_append_line:
  "list_all lines_nonempty bs \<Longrightarrow> list_all lines_nonempty (append_line i s bs)"
  by (auto simp: append_line_def list_all_length nth_list_update split: block.splits)

lemma speaker_line_blocks:
  "\<exists>b. blocks (speaker_line st (strip l)) = blocks st @ [b] \<and> fresh_for l b"
  by (auto simp: speaker_line_def Let_def split: prod.splits)

lemma step_blocks:
  "blocks (classify_step st l) = blocks st \<or>
   (\<exists>b. blocks (classify_step st l) = blocks st @ [b] \<and> fresh_for l b) \<or>
   (\<exists>i s. blocks (classify_step st l) = append_line i s (blocks st))"
  using speaker_line_blocks [of st l]
  by (auto simp: classify_step_def Let_def paren_line_def fallback_line_def
           split: option.splits)


lemma step_length: "length (blocks st) \<le> length (blocks (classify_step st l))"
  using step_blocks [of st l] by auto

lemma step_grows:
  "i < length (blocks st) \<Longrightarrow> grows (blocks st ! i) (blocks (classify_step st l) ! i)"
  using step_blocks [of st l] by (auto simp: nth_append grows_append_line)

lemma step_fresh:
  "length (blocks st) \<le> i \<Longrightarrow> i < length (blocks (classify_step st l)) \<Longrightarrow>
     fresh_for l (blocks (classify_step st l) ! i)"
  using step_blocks [of st l] by (auto simp: nth_append)

lemma fresh_nonempty: "fresh_for l b \<Longrightarrow> lines_nonempty b"
  by (cases b) auto

lemma step_nonempty:
  "list_all lines_nonempty (blocks st) \<Longrightarrow> list_all lines_nonempty (blocks (classify_step st l))"
  using step_blocks [of st l] by (auto simp: lines_nonempty_append_line fresh_nonempty)

lemma classify_nonempty: "list_all lines_nonempty (blocks (classify ls))"
proof (induction ls rule: rev_induct)
  case Nil
  show ?case by (simp add: classify_def format_init_def)
next
  case (snoc l ls)
  then show ?case by (simp add: classify_snoc step_nonempty)
qed

lemma dialogue_ref_ok_step: "dialogue_ref_ok st \<Longrightarrow> dialogue_ref_ok (classify_step st l)"
  by (auto simp: dialogue_ref_ok_def classify_step_def Let_def speaker_line_def paren_line_def
        fallback_line_def append_line_def nth_append
      split: option.splits prod.splits)

lemma dialogue_ref_ok_classify: "dialogue_ref_ok (classify ls)"
proof (induction ls rule: rev_induct)
  case Nil
  show ?case by (simp add: classify_def format_init_def dialogue_ref_ok_def)
next
  case (snoc l ls)
  then show ?case by (simp add: classify_snoc dialogue_ref_ok_step)
qed

text \<open>So the continuation branch always finds its dialogue block: the line is
  appended to the lines of the last block.\<close>

lemma continuation_appends:
  assumes "last_dialogue (classify ls) = Some i"
  shows "\<exists>c n xs. blocks (classify ls) ! i = Dialogue c n xs \<and>
           Suc i = length (blocks (classify ls)) \<and>
           append_line i s (blocks (classify ls)) =
             (blocks (classify ls))[i := Dialogue c n (xs @ [s])]"
proof -
  from dialogue_ref_ok_classify [of ls] assms obtain c n xs where
    d: "blocks (classify ls) ! i = Dialogue c n xs" and l: "Suc i = length (blocks (classify ls))"
    by (auto simp: dialogue_ref_ok_def)
  from l have "i < length (blocks (classify ls))" by simp
  with d l show ?thesis by (simp add: append_line_def)
qed

text \<open>
  C4. Every dialogue block of the classifier's output has at least one line,
  after any number of input lines. A step keeps every existing block, only
  extending the lines of a dialogue block, and a block it creates is a stage
  block or a dialogue block holding just the text after the separator.
\<close>

theorem dialogue_lines_never_empty:
  "list_all lines_nonempty (blocks (classify ls)) \<and>
   length (blocks (classify ls)) \<le> length (blocks (classify (ls @ [l]))) \<and>
   (\<forall>i. i < length (blocks (classify ls)) \<longrightarrow>
        grows (blocks (classify ls) ! i) (blocks (classify (ls @ [l])) ! i)) \<and>
   (\<forall>i. length (blocks (classify ls)) \<le> i \<and> i < length (blocks (classify (ls @ [l]))) \<longrightarrow>
        fresh_for l (blocks (classify (ls @ [l])) ! i))"
  by (simp add: classify_nonempty classify_snoc step_length step_grows step_fresh)

theorem dialogue_lines_never_empty_witness:
  "blocks (classify [HEADER]) = [Dialogue [0x5F35, 0x4E09] None [[0x4F60, 0x597D]]] \<and>
   list_all lines_nonempty (blocks (classify [HEADER])) \<and>
   grows (blocks (classify [HEADER]) ! 0) (blocks (classify ([HEADER] @ [asc ''more''])) ! 0) \<and>
   fresh_for SCENE (blocks (classify ([HEADER] @ [SCENE])) ! 1)"
proof -
  have e: "blocks (classify [HEADER]) = [Dialogue [0x5F35, 0x4E09] None [[0x4F60, 0x597D]]]"
    by code_simp
  have l0: "(0::nat) < length (blocks (classify [HEADER]))" by (simp add: e)
  have l1: "length (blocks (classify [HEADER])) \<le> 1 \<and>
      (1::nat) < length (blocks (classify ([HEADER] @ [SCENE])))" by code_simp
  show ?thesis
    using e l0 l1 dialogue_lines_never_empty [of "[HEADER]" "asc ''more''"]
      dialogue_lines_never_empty [of "[HEADER]" SCENE]
    by blast
qed

lemma blank_step: "strip b = [] \<Longrightarrow> classify_step st b = st\<lparr>prev_blank := True\<rparr>"
  by (simp add: classify_step_def)

lemma skipped_step:
  "prev_blank st \<Longrightarrow> is_blank_or_noise n \<Longrightarrow> classify_step st n = st"
  by (auto simp: classify_step_def is_blank_or_noise_def Let_def)

lemma skipped_steps:
  "prev_blank st \<Longrightarrow> \<forall>n\<in>set ns. is_blank_or_noise n \<Longrightarrow> foldl classify_step st ns = st"
  by (induction ns) (auto simp: skipped_step)

lemma step_after_blank:
  assumes "prev_blank st" "\<not> is_blank_or_noise l"
  shows "\<exists>b. blocks (classify_step st l) = blocks st @ [b] \<and> fresh_for l b"
proof -
  from assms(2) have nb: "strip l \<noteq> []" and nn: "\<not> is_noise (plain_text (strip l))"
    by (auto simp: is_blank_or_noise_def)
  show ?thesis
  proof (cases "FW_COLON \<in> set (strip l)")
    case True
    with nb nn have "classify_step st l = speaker_line st (strip l)"
      by (simp add: classify_step_def Let_def)
    then show ?thesis using speaker_line_blocks [of st l] by simp
  next
    case False
    with nb nn assms(1) show ?thesis
      by (auto simp: classify_step_def Let_def paren_line_def fallback_line_def
               split: option.splits)
  qed
qed

text \<open>
  C2. After a blank line, and any blank or noise lines that follow it, the next
  line that is neither is not appended to an earlier block: the blocks built
  before are unchanged and one new block follows them, a stage block or a
  dialogue block with its first line only.
\<close>

theorem blank_line_ends_continuation:
  assumes "strip b = []" "\<forall>n\<in>set ns. is_blank_or_noise n" "\<not> is_blank_or_noise l"
  shows "\<exists>blk. blocks (classify (pre @ [b] @ ns @ [l])) = blocks (classify pre) @ [blk] \<and>
           fresh_for l blk"
proof -
  let ?st = "(classify pre)\<lparr>prev_blank := True\<rparr>"
  have p: "prev_blank ?st" by simp
  have "classify (pre @ [b] @ ns @ [l]) =
      classify_step (foldl classify_step (classify_step (classify pre) b) ns) l"
    by (simp add: classify_def)
  also have "\<dots> = classify_step ?st l"
    by (simp add: blank_step [OF assms(1)] skipped_steps [OF p assms(2)])
  finally have "classify (pre @ [b] @ ns @ [l]) = classify_step ?st l" .
  then show ?thesis using step_after_blank [OF p assms(3)] by simp
qed

theorem blank_line_ends_continuation_witness:
  "strip [] = [] \<and> is_blank_or_noise REPLY_NOISE \<and> \<not> is_blank_or_noise (asc ''next'') \<and>
   blocks (classify ([HEADER] @ [[]] @ [REPLY_NOISE] @ [asc ''next''])) =
     blocks (classify [HEADER]) @ [Stage (asc ''next'')]"
proof -
  have h1: "strip [] = []" by code_simp
  have h2: "is_blank_or_noise REPLY_NOISE" by code_simp
  have h2': "\<forall>n\<in>set [REPLY_NOISE]. is_blank_or_noise n" using h2 by simp
  have h3: "\<not> is_blank_or_noise (asc ''next'')" by code_simp
  have e: "last (blocks (classify ([HEADER] @ [[]] @ [REPLY_NOISE] @ [asc ''next'']))) =
      Stage (asc ''next'')" by code_simp
  from blank_line_ends_continuation [OF h1 h2' h3, of "[HEADER]"] obtain blk where
    "blocks (classify ([HEADER] @ [[]] @ [REPLY_NOISE] @ [asc ''next''])) =
       blocks (classify [HEADER]) @ [blk]" by blast
  with e h1 h2 h3 show ?thesis by simp
qed

text \<open>
  C1, as stated, fails: the line \<open>a:b\<close> holds a half-width colon, is neither blank
  nor noise, and goes to the fallback branch. Alone it becomes the stage text
  \<open>a:b\<close>; after a dialogue header it is appended whole to the dialogue.
\<close>

theorem half_width_colon_not_separator:
  "HW_COLON \<in> set (strip (asc ''a:b'')) \<and> \<not> is_blank_or_noise (asc ''a:b'') \<and>
   classify_step format_init (asc ''a:b'') = fallback_line format_init (asc ''a:b'') \<and>
   blocks (classify [asc ''a:b'']) = [Stage (asc ''a:b'')] \<and>
   blocks (classify [HEADER, asc ''a:b'']) =
     [Dialogue [0x5F35, 0x4E09] None [[0x4F60, 0x597D], asc ''a:b'']]"
  by code_simp

lemma stage_name_nonempty: "plain_text a \<in> STAGE_NAMES \<Longrightarrow> a \<noteq> []"
  by (auto simp: STAGE_NAMES_def)

lemma strip_stage_join:
  assumes "plain_text (strip n) \<in> STAGE_NAMES"
  shows "strip (strip n @ [FW_COLON] @ strip t) = strip n @ [FW_COLON] @ strip t"
  using assms
  by (intro strip_trimmed trimmed_join trimmed_strip stage_name_nonempty)

lemma speaker_line_stage:
  assumes "plain_text (strip (fst (split_once FW_COLON s))) \<in> STAGE_NAMES"
  shows "speaker_line st s =
     \<lparr>blocks = blocks st @ [Stage (strip (fst (split_once FW_COLON s)) @ [FW_COLON] @
                                  strip (snd (split_once FW_COLON s)))],
      last_dialogue = None, prev_blank = False\<rparr>"
  using assms strip_stage_join [OF assms, of "snd (split_once FW_COLON s)"]
  by (simp add: speaker_line_def Let_def case_prod_beta)

lemma speaker_line_dialogue:
  assumes "plain_text (strip (fst (split_once FW_COLON s))) \<notin> STAGE_NAMES"
  shows "speaker_line st s =
     \<lparr>blocks = blocks st @
        [Dialogue (fst (split_note (strip (fst (split_once FW_COLON s)))))
                  (snd (split_note (strip (fst (split_once FW_COLON s)))))
                  [strip (snd (split_once FW_COLON s))]],
      last_dialogue = Some (length (blocks st)), prev_blank = False\<rparr>"
  using assms by (simp add: speaker_line_def Let_def case_prod_beta)

text \<open>
  C1, amended. Only the full-width colon separates. A line that is neither blank
  nor noise and holds a full-width colon is cut at the first one and becomes a
  speaker line: one new block, a stage block for a stage keyword and a dialogue
  block otherwise. Without a full-width colon the line goes to the
  parenthetical branch or to the fallback branch, whatever half-width colons
  it holds.
\<close>

theorem full_width_colon_separates:
  assumes "\<not> is_blank_or_noise raw"
  shows "(FW_COLON \<in> set (strip raw) \<longrightarrow>
           strip raw = fst (split_once FW_COLON (strip raw)) @ [FW_COLON] @
                       snd (split_once FW_COLON (strip raw)) \<and>
           FW_COLON \<notin> set (fst (split_once FW_COLON (strip raw))) \<and>
           classify_step st raw = speaker_line st (strip raw) \<and>
           blocks (classify_step st raw) = blocks st @
             [if plain_text (strip (fst (split_once FW_COLON (strip raw)))) \<in> STAGE_NAMES
              then Stage (strip (fst (split_once FW_COLON (strip raw))) @ [FW_COLON] @
                          strip (snd (split_once FW_COLON (strip raw))))
              else Dialogue (fst (split_note (strip (fst (split_once FW_COLON (strip raw))))))
                            (snd (split_note (strip (fst (split_once FW_COLON (strip raw))))))
                            [strip (snd (split_once FW_COLON (strip raw)))]]) \<and>
         (FW_COLON \<notin> set (strip raw) \<longrightarrow>
           classify_step st raw =
             (if opens_paren (strip raw) \<or> closes_paren (strip raw)
              then paren_line st (strip raw) else fallback_line st (strip raw)))"
proof -
  from assms have nb: "strip raw \<noteq> []" and nn: "\<not> is_noise (plain_text (strip raw))"
    by (auto simp: is_blank_or_noise_def)
  have a: "FW_COLON \<in> set (strip raw) \<Longrightarrow> classify_step st raw = speaker_line st (strip raw)"
    using nb nn by (simp add: classify_step_def Let_def)
  have b: "FW_COLON \<notin> set (strip raw) \<Longrightarrow> classify_step st raw =
             (if opens_paren (strip raw) \<or> closes_paren (strip raw)
              then paren_line st (strip raw) else fallback_line st (strip raw))"
    using nb nn by (simp add: classify_step_def Let_def)
  show ?thesis
    using a b split_once_decomp [of FW_COLON "strip raw"]
      speaker_line_stage [of "strip raw" st] speaker_line_dialogue [of "strip raw" st]
    by auto
qed

theorem full_width_colon_separates_witness:
  "\<not> is_blank_or_noise HEADER \<and> FW_COLON \<in> set (strip HEADER) \<and>
   blocks (classify_step format_init HEADER) = [Dialogue [0x5F35, 0x4E09] None [[0x4F60, 0x597D]]] \<and>
   \<not> is_blank_or_noise (asc ''a:b'') \<and> FW_COLON \<notin> set (strip (asc ''a:b'')) \<and>
   classify_step format_init (asc ''a:b'') = fallback_line format_init (asc ''a:b'')"
proof -
  have h1: "\<not> is_blank_or_noise HEADER" by code_simp
  have h2: "FW_COLON \<in> set (strip HEADER)" by code_simp
  have h3: "\<not> is_blank_or_noise (asc ''a:b'')" by code_simp
  have h4: "FW_COLON \<notin> set (strip (asc ''a:b''))" by code_simp
  have e1: "speaker_line format_init (strip HEADER) =
      \<lparr>blocks = [Dialogue [0x5F35, 0x4E09] None [[0x4F60, 0x597D]]],
       last_dialogue = Some 0, prev_blank = False\<rparr>" by code_simp
  have e2: "\<not> opens_paren (strip (asc ''a:b''))" "\<not> closes_paren (strip (asc ''a:b''))"
    "strip (asc ''a:b'') = asc ''a:b''" by code_simp+
  have "classify_step format_init HEADER = speaker_line format_init (strip HEADER)"
    using full_width_colon_separates [OF h1, of format_init] h2 by blast
  moreover have "classify_step format_init (asc ''a:b'') = fallback_line format_init (asc ''a:b'')"
    using full_width_colon_separates [OF h3, of format_init] h4 e2 by simp
  ultimately show ?thesis using h1 h2 h3 h4 e1 by simp
qed

text \<open>
  C3. A speaker line whose name part projects to a stage keyword appends the
  stage block of the name part, the separator and the text part, and clears
  \<open>last_dialogue\<close>; the input \<open>SCENE\<close> is formatted to one \<open>\stage\<close> line.
\<close>

theorem stage_keyword_line:
  assumes "\<not> is_blank_or_noise raw" "FW_COLON \<in> set (strip raw)"
    "plain_text (strip (fst (split_once FW_COLON (strip raw)))) \<in> STAGE_NAMES"
  shows "classify_step st raw =
           \<lparr>blocks = blocks st @
              [Stage (strip (fst (split_once FW_COLON (strip raw))) @ [FW_COLON] @
                      strip (snd (split_once FW_COLON (strip raw))))],
            last_dialogue = None, prev_blank = False\<rparr> \<and>
         format_script SCENE = BACKSLASH # asc ''stage{'' @ SCENE @ asc ''}'' @ [10]"
proof -
  from assms(1) have nb: "strip raw \<noteq> []" and nn: "\<not> is_noise (plain_text (strip raw))"
    by (auto simp: is_blank_or_noise_def)
  have "classify_step st raw = speaker_line st (strip raw)"
    using nb nn assms(2) by (simp add: classify_step_def Let_def)
  moreover have "format_script SCENE = BACKSLASH # asc ''stage{'' @ SCENE @ asc ''}'' @ [10]"
    by code_simp
  ultimately show ?thesis using speaker_line_stage [OF assms(3), of st] by simp
qed

theorem stage_keyword_line_witness:
  "\<not> is_blank_or_noise SCENE \<and> FW_COLON \<in> set (strip SCENE) \<and>
   plain_text (strip (fst (split_once FW_COLON (strip SCENE)))) \<in> STAGE_NAMES \<and>
   classify_step format_init SCENE =
     \<lparr>blocks = [Stage SCENE], last_dialogue = None, prev_blank = False\<rparr>"
proof -
  have h1: "\<not> is_blank_or_noise SCENE" by code_simp
  have h2: "FW_COLON \<in> set (strip SCENE)" by code_simp
  have h3: "plain_text (strip (fst (split_once FW_COLON (strip SCENE)))) \<in> STAGE_NAMES"
    by code_simp
  have e: "strip (fst (split_once FW_COLON (strip SCENE))) @ [FW_COLON] @
      strip (snd (split_once FW_COLON (strip SCENE))) = SCENE" by code_simp
  have b: "blocks format_init = []" by (simp add: format_init_def)
  show ?thesis using h1 h2 h3 stage_keyword_line [OF h1 h2 h3, of format_init] e b by simp
qed

section \<open>The serializer: properties\<close>

lemma emit_block_template: "emit_block out b = out @ block_template b"
  by (cases b)
     (auto simp: Let_def stage_cmd_def charname_cmd_def BEGIN_DIALOGUE_def END_DIALOGUE_def
           split: option.splits)

lemma foldl_emit_block: "foldl emit_block out bs = out @ concat (map block_template bs)"
  by (induction bs arbitrary: out) (simp_all add: emit_block_template)

lemma join_nl_Cons: "join_nl (x # xs) = x @ concat (map ((#) NL) xs)"
  by (induction xs arbitrary: x) auto

lemma join_nl_concat:
  "join_nl xs = (case xs of [] \<Rightarrow> [] | x # ys \<Rightarrow> x @ concat (map ((#) 10) ys))"
  by (cases xs) (simp_all add: join_nl_Cons NL_def)

lemma rstrip_tail_space: "\<forall>c\<in>set (rev (takeWhile isspace (rev s))). isspace c"
  by (auto dest: set_takeWhileD)

lemma serialize_last: "last (serialize bs) = NL"
  by (simp add: serialize_def)

lemma serialize_butlast: "butlast (serialize bs) = rstrip (join_nl (foldl emit_block [] bs))"
  by (simp add: serialize_def butlast_append)

text \<open>
  C9. The loop of the serializer emits the template of each block in order: for
  a stage block the line \<open>\stage{text}\<close> and an empty line. The output is the
  emitted lines joined by line feeds, without the trailing whitespace of that
  text, followed by one line feed; so the output of \<open>format_script\<close> ends in a line
  feed with no whitespace before it. The sample document is formatted to the
  text written out below.
\<close>

theorem serialize_template:
  "foldl emit_block [] bs = concat (map block_template bs) \<and>
   foldl emit_block [] [Stage t] = [BACKSLASH # asc ''stage{'' @ t @ asc ''}'', []] \<and>
   (\<exists>r w. (case concat (map block_template bs) of
              [] \<Rightarrow> []
            | x # xs \<Rightarrow> x @ concat (map ((#) 10) xs)) = r @ w \<and>
          (\<forall>c\<in>set w. isspace c) \<and> (r \<noteq> [] \<longrightarrow> \<not> isspace (last r)) \<and>
          serialize bs = r @ [10]) \<and>
   format_script text =
     serialize (blocks (classify (merge_parenthetical_lines (splitlines text)))) \<and>
   last (format_script text) = 10 \<and>
   (butlast (format_script text) \<noteq> [] \<longrightarrow>
      \<not> isspace (last (butlast (format_script text)))) \<and>
   format_script DIALOGUE_DOC =
     BACKSLASH # asc ''charname{'' @ [0x674E, 0x56DB] @ asc ''}'' @ [10] @
     BACKSLASH # asc ''stage{'' @ [0x7B11] @ asc ''}'' @ [10] @
     BACKSLASH # asc ''begin{dialogue}'' @ [10] @
     [0x4F60, 0x4F86, 0x4E86] @ [10] @
     asc ''more'' @ [10] @
     BACKSLASH # asc ''end{dialogue}'' @ [10] @
     [10] @
     BACKSLASH # asc ''stage{'' @ [0x4ED6, 0x8F49, 0x8EAB, 0x96E2, 0x958B] @ asc ''}'' @ [10]"
proof (intro conjI impI)
  show "foldl emit_block [] bs = concat (map block_template bs)"
    by (simp add: foldl_emit_block)
  show "foldl emit_block [] [Stage t] = [BACKSLASH # asc ''stage{'' @ t @ asc ''}'', []]"
    by (simp add: stage_cmd_def)
  let ?j = "join_nl (concat (map block_template bs))"
  have "(case concat (map block_template bs) of
              [] \<Rightarrow> []
            | x # xs \<Rightarrow> x @ concat (map ((#) 10) xs)) =
        rstrip ?j @ rev (takeWhile isspace (rev ?j))"
    unfolding rstrip_decomp by (simp add: join_nl_concat)
  moreover have "\<forall>c\<in>set (rev (takeWhile isspace (rev ?j))). isspace c"
    by (rule rstrip_tail_space)
  moreover have "rstrip ?j \<noteq> [] \<longrightarrow> \<not> isspace (last (rstrip ?j))"
    by (simp add: rstrip_last)
  moreover have "serialize bs = rstrip ?j @ [10]"
    by (simp add: serialize_def foldl_emit_block NL_def)
  ultimately show "\<exists>r w. (case concat (map block_template bs) of
              [] \<Rightarrow> []
            | x # xs \<Rightarrow> x @ concat (map ((#) 10) xs)) = r @ w \<and>
          (\<forall>c\<in>set w. isspace c) \<and> (r \<noteq> [] \<longrightarrow> \<not> isspace (last r)) \<and>
          serialize bs = r @ [10]"
    by blast
  show "format_script text =
     serialize (blocks (classify (merge_parenthetical_lines (splitlines text))))"
    by (simp add: format_script_def)
  show "last (format_script text) = 10"
    by (simp add: format_script_def serialize_last [unfolded NL_def])
  show "format_script DIALOGUE_DOC =
     BACKSLASH # asc ''charname{'' @ [0x674E, 0x56DB] @ asc ''}'' @ [10] @
     BACKSLASH # asc ''stage{'' @ [0x7B11] @ asc ''}'' @ [10] @
     BACKSLASH # asc ''begin{dialogue}'' @ [10] @
     [0x4F60, 0x4F86, 0x4E86] @ [10] @
     asc ''more'' @ [10] @
     BACKSLASH # asc ''end{dialogue}'' @ [10] @
     [10] @
     BACKSLASH # asc ''stage{'' @ [0x4ED6, 0x8F49, 0x8EAB, 0x96E2, 0x958B] @ asc ''}'' @ [10]"
    by code_simp
  assume "butlast (format_script text) \<noteq> []"
  then show "\<not> isspace (last (butlast (format_script text)))"
    unfolding format_script_def serialize_butlast by (rule rstrip_last)
qed

theorem serialize_template_witness:
  "butlast (format_script SCENE) \<noteq> [] \<and> \<not> isspace (last (butlast (format_script SCENE))) \<and>
   last (format_script SCENE) = 10"
proof -
  have h: "butlast (format_script SCENE) \<noteq> []" by code_simp
  show ?thesis using h serialize_template [of _ _ SCENE] by blast
qed

lemma rfind_last_open:
  assumes "c \<notin> set ws" "c \<noteq> d"
  shows "rfind c (nm @ [c] @ ws @ [d]) = length nm"
proof -
  have "takeWhile (\<lambda>x. x \<noteq> c) (rev (nm @ [c] @ ws @ [d])) = d # rev ws"
    using assms by (auto simp: takeWhile_append2 takeWhile_tail)
  then show ?thesis by (simp add: rfind_def)
qed

lemma not_space_brackets: "\<not> isspace FW_OPEN" "\<not> isspace HW_OPEN"
  by (simp_all add: isspace_def FW_OPEN_def HW_OPEN_def)

lemma split_note_blank_FW:
  assumes "\<forall>c\<in>set ws. isspace c"
  shows "split_note (nm @ [FW_OPEN] @ ws @ [FW_CLOSE]) = (strip nm, Some [])"
proof -
  have o: "FW_OPEN \<notin> set ws" using assms not_space_brackets by blast
  have ne: "FW_OPEN \<noteq> FW_CLOSE" by (simp add: FW_OPEN_def FW_CLOSE_def)
  have i: "rfind FW_OPEN (nm @ [FW_OPEN] @ ws @ [FW_CLOSE]) = length nm"
    by (rule rfind_last_open [OF o ne])
  have e: "endswith (nm @ [FW_OPEN] @ ws @ [FW_CLOSE]) [FW_CLOSE]"
    by (simp add: endswith_single)
  have b: "butlast (ws @ [FW_CLOSE]) = ws" by simp
  show ?thesis
    unfolding split_note_def Let_def i using e strip_all_space [OF assms]
    by (simp add: butlast_append)
qed

lemma split_note_blank_HW:
  assumes "\<forall>c\<in>set ws. isspace c"
  shows "split_note (nm @ [HW_OPEN] @ ws @ [HW_CLOSE]) = (strip nm, Some [])"
proof -
  have o: "HW_OPEN \<notin> set ws" using assms not_space_brackets by blast
  have ne: "HW_OPEN \<noteq> HW_CLOSE" by (simp add: HW_OPEN_def HW_CLOSE_def)
  have i: "rfind HW_OPEN (nm @ [HW_OPEN] @ ws @ [HW_CLOSE]) = length nm"
    by (rule rfind_last_open [OF o ne])
  have e: "endswith (nm @ [HW_OPEN] @ ws @ [HW_CLOSE]) [HW_CLOSE]"
    "\<not> endswith (nm @ [HW_OPEN] @ ws @ [HW_CLOSE]) [FW_CLOSE]"
    by (simp_all add: endswith_single HW_CLOSE_def FW_CLOSE_def)
  show ?thesis
    unfolding split_note_def Let_def i using e strip_all_space [OF assms]
    by (simp add: butlast_append)
qed

lemma classify_all_skipped:
  assumes "\<forall>l\<in>set ls. is_blank_or_noise l"
  shows "classify ls = format_init"
  unfolding classify_def
  by (rule skipped_steps [OF _ assms]) (simp add: format_init_def)

lemma serialize_Nil: "serialize [] = [NL]"
  by (simp add: serialize_def rstrip_def)

text \<open>
  C10. A note of whitespace only, in either bracket style, is extracted as the
  empty string; a dialogue block is rendered with a \<open>\stage\<close> line exactly when
  its note is a non-empty string; and when every line the classifier reads is
  blank or noise, the output is a single line feed.
\<close>

theorem empty_note_and_empty_output:
  "((\<forall>c\<in>set ws. isspace c) \<longrightarrow>
      split_note (nm @ [FW_OPEN] @ ws @ [FW_CLOSE]) = (strip nm, Some []) \<and>
      split_note (nm @ [HW_OPEN] @ ws @ [HW_CLOSE]) = (strip nm, Some [])) \<and>
   emit_block out (Dialogue c (Some []) ls) =
     out @ [charname_cmd c, BEGIN_DIALOGUE] @ ls @ [END_DIALOGUE, []] \<and>
   emit_block out (Dialogue c None ls) =
     out @ [charname_cmd c, BEGIN_DIALOGUE] @ ls @ [END_DIALOGUE, []] \<and>
   (note \<noteq> [] \<longrightarrow>
      emit_block out (Dialogue c (Some note) ls) =
        out @ [charname_cmd c, stage_cmd note, BEGIN_DIALOGUE] @ ls @ [END_DIALOGUE, []]) \<and>
   format_script EMPTY_NOTE =
     join_nl [charname_cmd [0x674E, 0x56DB], BEGIN_DIALOGUE, asc ''text'', END_DIALOGUE] @ [NL] \<and>
   ((\<forall>l\<in>set (merge_parenthetical_lines (splitlines text)). is_blank_or_noise l) \<longrightarrow>
      format_script text = [NL])"
proof (intro conjI impI)
  show "format_script EMPTY_NOTE =
     join_nl [charname_cmd [0x674E, 0x56DB], BEGIN_DIALOGUE, asc ''text'', END_DIALOGUE] @ [NL]"
    by code_simp
next
  assume "\<forall>l\<in>set (merge_parenthetical_lines (splitlines text)). is_blank_or_noise l"
  then show "format_script text = [NL]"
    by (simp add: format_script_def classify_all_skipped format_init_def serialize_Nil)
next
  assume w: "\<forall>c\<in>set ws. isspace c"
  show "split_note (nm @ [FW_OPEN] @ ws @ [FW_CLOSE]) = (strip nm, Some [])"
    by (rule split_note_blank_FW [OF w])
  show "split_note (nm @ [HW_OPEN] @ ws @ [HW_CLOSE]) = (strip nm, Some [])"
    by (rule split_note_blank_HW [OF w])
qed (simp_all add: Let_def)

theorem empty_note_and_empty_output_witness:
  "isspace 32 \<and>
   split_note ([0x674E, 0x56DB] @ [FW_OPEN] @ [32] @ [FW_CLOSE]) = ([0x674E, 0x56DB], Some []) \<and>
   emit_block [] (Dialogue (asc ''A'') (Some (asc ''n'')) [asc ''t'']) =
     [charname_cmd (asc ''A''), stage_cmd (asc ''n''), BEGIN_DIALOGUE, asc ''t'', END_DIALOGUE, []] \<and>
   is_blank_or_noise [] \<and> is_blank_or_noise REPLY_NOISE \<and>
   format_script ([NL] @ REPLY_NOISE @ [NL]) = [NL]"
proof -
  have s: "isspace 32" by code_simp
  have s': "\<forall>c\<in>set [32]. isspace c" using s by simp
  have n: "asc ''n'' \<noteq> []" by code_simp
  have st: "strip [0x674E, 0x56DB] = [0x674E, 0x56DB]" by code_simp
  have b: "is_blank_or_noise []" "is_blank_or_noise REPLY_NOISE" by code_simp+
  have m: "merge_parenthetical_lines (splitlines ([NL] @ REPLY_NOISE @ [NL])) = [[], REPLY_NOISE]"
    by code_simp
  have a: "\<forall>l\<in>set (merge_parenthetical_lines (splitlines ([NL] @ REPLY_NOISE @ [NL]))).
      is_blank_or_noise l" unfolding m using b by simp
  note t = empty_note_and_empty_output [of "[32]" "[0x674E, 0x56DB]" "[]" "asc ''A''" "[asc ''t'']"
      "asc ''n''" "[NL] @ REPLY_NOISE @ [NL]"]
  show ?thesis using s s' n st b a t by simp
qed

end
